theory Spec2Isabelle
  imports Main "HOL-Library.Word"
begin

unbundle bit_operations_syntax

section \<open>Values, errors and outcomes\<close>

text \<open>
  A Go \<^verbatim>\<open>[]byte\<close> is a list of 8-bit words (a slice is taken with its capacity equal
  to its length), and a \<^verbatim>\<open>*big.Int\<close> is an \<open>int\<close>. Go's \<^verbatim>\<open>int\<close> is a 64-bit two's complement
  integer: a value of it is an \<open>int\<close> between \<open>- 2 ^ 63\<close> and \<open>2 ^ 63 - 1\<close>, and its sums,
  differences and products wrap around (\<open>add64\<close>, \<open>sub64\<close>, \<open>mul64\<close>).

  Every way a call can end is a value: \<open>Ok\<close> with the result, \<open>Err\<close> with the error
  value returned, \<open>Panic\<close> for a run-time panic (index or slice bound out of range,
  division by zero). The errors are \<^verbatim>\<open>rsa.ErrVerification\<close>, \<^verbatim>\<open>rsa.ErrDecryption\<close>, the two
  \<^verbatim>\<open>errors.New\<close> values of \<^verbatim>\<open>emsaPSSEncode\<close> ("input must be hashed message" and
  "encoding error"), and the error of the random source.
\<close>

type_synonym byte = "8 word"

datatype error = ErrVerification | ErrDecryption | ErrNotHashed | ErrEncoding | ErrRandom

datatype 'a result = Ok 'a | Err error | Panic

definition wrap64 :: "int \<Rightarrow> int" where
  "wrap64 x = (x + 2 ^ 63) mod 2 ^ 64 - 2 ^ 63"

definition add64 :: "int \<Rightarrow> int \<Rightarrow> int" where
  "add64 a b = wrap64 (a + b)"

definition sub64 :: "int \<Rightarrow> int \<Rightarrow> int" where
  "sub64 a b = wrap64 (a - b)"

definition mul64 :: "int \<Rightarrow> int \<Rightarrow> int" where
  "mul64 a b = wrap64 (a * b)"

text \<open>Go's integer division truncates towards zero.\<close>

definition quoT :: "int \<Rightarrow> int \<Rightarrow> int" where
  "quoT a b = sgn a * sgn b * (\<bar>a\<bar> div \<bar>b\<bar>)"

definition remT :: "int \<Rightarrow> int \<Rightarrow> int" where
  "remT a b = a - b * quoT a b"

text \<open>The conversion \<^verbatim>\<open>uint(x)\<close> of an \<^verbatim>\<open>int\<close> on a 64-bit platform.\<close>

definition go_uint :: "int \<Rightarrow> nat" where
  "go_uint x = nat (x mod 2 ^ 64)"

text \<open>
  The builtin \<^verbatim>\<open>copy(dst, src)\<close>: the new contents of \<open>dst\<close>, whose first
  \<open>min (len dst) (len src)\<close> bytes come from \<open>src\<close>.
\<close>

definition go_copy :: "byte list \<Rightarrow> byte list \<Rightarrow> byte list" where
  "go_copy dst src = take (length dst) src @ drop (length src) dst"

section \<open>The hash interface\<close>

text \<open>
  \<^verbatim>\<open>hash.Hash\<close>: an instance holds the bytes written since the last \<^verbatim>\<open>Reset\<close>;
  \<^verbatim>\<open>Sum(b)\<close> appends the digest of these bytes to \<open>b\<close> and leaves the state as it is.
  \<^verbatim>\<open>crypto.Hash\<close> names the algorithm: its digest function and its \<^verbatim>\<open>Size()\<close>.
\<close>

record crypto_Hash =
  hfun :: "byte list \<Rightarrow> byte list"
  hsize :: nat

record hash = crypto_Hash +
  written :: "byte list"

definition hash_New :: "crypto_Hash \<Rightarrow> hash" where
  "hash_New a = \<lparr>hfun = hfun a, hsize = hsize a, written = []\<rparr>"

definition hash_Write :: "hash \<Rightarrow> byte list \<Rightarrow> hash" where
  "hash_Write h bs = h\<lparr>written := written h @ bs\<rparr>"

definition hash_Sum :: "hash \<Rightarrow> byte list \<Rightarrow> byte list" where
  "hash_Sum h b = b @ hfun h (written h)"

definition hash_Reset :: "hash \<Rightarrow> hash" where
  "hash_Reset h = h\<lparr>written := []\<rparr>"

definition hash_Size :: "hash \<Rightarrow> int" where
  "hash_Size h = int (hsize h)"

section \<open>math/big\<close>

text \<open>
  \<^verbatim>\<open>Int.Exp(x, y, m)\<close>: \<open>x ^ y mod \<bar>m\<bar>\<close>; the result is 1 when \<open>y \<le> 0\<close>, and there is no
  reduction when \<open>m = 0\<close>. The program calls it with \<open>x \<ge> 0\<close> only.
\<close>

definition bigExp :: "int \<Rightarrow> int \<Rightarrow> int \<Rightarrow> int" where
  "bigExp x y m = (if y \<le> 0 then 1 else if m = 0 then x ^ nat y else x ^ nat y mod \<bar>m\<bar>)"

text \<open>\<^verbatim>\<open>Int.Mod(x, y)\<close> for \<open>y \<noteq> 0\<close>: the Euclidean modulus, never negative.\<close>

definition bigMod :: "int \<Rightarrow> int \<Rightarrow> int" where
  "bigMod x y = x mod \<bar>y\<bar>"

text \<open>
  \<^verbatim>\<open>Int.GCD(x, y, a, b)\<close>: the extended Euclidean algorithm of math/big. The loop keeps
  \<open>A, B\<close> and the cofactors \<open>X, Y, lastX, lastY\<close>; it returns \<open>(z, x, y)\<close> with
  \<open>z = a * x + b * y\<close>, and \<open>z = x = y = 0\<close> when \<open>a \<le> 0\<close> or \<open>b \<le> 0\<close>.
\<close>

function bigGCD_loop :: "int \<Rightarrow> int \<Rightarrow> int \<Rightarrow> int \<Rightarrow> int \<Rightarrow> int \<Rightarrow> int \<times> int \<times> int" where
  "bigGCD_loop A B X Y lastX lastY =
     (if B = 0 then (A, lastX, lastY)
      else let q = quoT A B; r = remT A B
           in bigGCD_loop B r (lastX - X * q) (lastY - Y * q) X Y)"
  by pat_completeness auto
termination
proof (relation "measure (\<lambda>(A, B, X, Y, lastX, lastY). nat \<bar>B\<bar>)")
  show "wf (measure (\<lambda>(A, B, X, Y, lastX, lastY). nat \<bar>B\<bar>))"
    by simp
next
  fix A B X Y lastX lastY :: int and q r :: int
  assume B: "B \<noteq> 0" and r: "r = remT A B"
  have 1: "B * (sgn A * sgn B * (\<bar>A\<bar> div \<bar>B\<bar>)) = sgn A * (\<bar>B\<bar> * (\<bar>A\<bar> div \<bar>B\<bar>))"
    by (simp add: abs_sgn mult.assoc mult.left_commute)
  have "remT A B = sgn A * \<bar>A\<bar> - sgn A * (\<bar>B\<bar> * (\<bar>A\<bar> div \<bar>B\<bar>))"
    unfolding remT_def quoT_def 1 by (simp add: mult_sgn_abs)
  also have "\<dots> = sgn A * (\<bar>A\<bar> - \<bar>B\<bar> * (\<bar>A\<bar> div \<bar>B\<bar>))"
    by (simp add: right_diff_distrib)
  also have "\<dots> = sgn A * (\<bar>A\<bar> mod \<bar>B\<bar>)"
    by (simp add: minus_mult_div_eq_mod)
  finally have 2: "remT A B = sgn A * (\<bar>A\<bar> mod \<bar>B\<bar>)" .
  have 3: "0 \<le> \<bar>A\<bar> mod \<bar>B\<bar>" "\<bar>A\<bar> mod \<bar>B\<bar> < \<bar>B\<bar>"
    using B by simp_all
  have "\<bar>remT A B\<bar> \<le> \<bar>A\<bar> mod \<bar>B\<bar>"
    using 3 by (simp add: 2 abs_mult abs_sgn_eq)
  then show "((B, r, lastX - X * q, lastY - Y * q, X, Y), A, B, X, Y, lastX, lastY)
      \<in> measure (\<lambda>(A, B, X, Y, lastX, lastY). nat \<bar>B\<bar>)"
    using r 3 by simp
qed

declare bigGCD_loop.simps [simp del]

definition bigGCD :: "int \<Rightarrow> int \<Rightarrow> int \<times> int \<times> int" where
  "bigGCD a b = (if a \<le> 0 \<or> b \<le> 0 then (0, 0, 0) else bigGCD_loop a b 0 1 1 0)"

text \<open>\<^verbatim>\<open>Int.BitLen\<close>: the length of the absolute value in bits; the bit length of 0 is 0.\<close>

fun bitlen_nat :: "nat \<Rightarrow> nat" where
  "bitlen_nat n = (if n = 0 then 0 else Suc (bitlen_nat (n div 2)))"

definition BitLen :: "int \<Rightarrow> int" where
  "BitLen x = int (bitlen_nat (nat \<bar>x\<bar>))"

text \<open>\<^verbatim>\<open>Int.SetBytes\<close>: the value of a big-endian unsigned integer.\<close>

definition SetBytes :: "byte list \<Rightarrow> int" where
  "SetBytes buf = foldl (\<lambda>acc b. acc * 256 + uint b) 0 buf"

text \<open>\<^verbatim>\<open>Int.Bytes\<close>: the absolute value as a big-endian byte slice with no leading zero.\<close>

fun nat_bytes :: "nat \<Rightarrow> byte list" where
  "nat_bytes n = (if n = 0 then [] else nat_bytes (n div 256) @ [of_nat (n mod 256)])"

definition Bytes :: "int \<Rightarrow> byte list" where
  "Bytes x = nat_bytes (nat \<bar>x\<bar>)"

section \<open>Keys and the random source\<close>

text \<open>
  \<^verbatim>\<open>rsa.PublicKey\<close> (fields N and E), \<^verbatim>\<open>rsa.PrivateKey\<close> (which embeds the public key and
  adds D, Primes and Precomputed), \<^verbatim>\<open>rsa.PrecomputedValues\<close> and \<^verbatim>\<open>rsa.CRTValue\<close> (fields
  Exp, Coeff and R). \<open>Dp = None\<close> is the nil pointer the program tests for.
\<close>

record PublicKey =
  keyN :: int
  keyE :: int

record CRTValue =
  crtExp :: int
  crtCoeff :: int
  crtR :: int

record PrecomputedValues =
  Dp :: "int option"
  Dq :: int
  Qinv :: int
  CRTValues :: "CRTValue list"

record PrivateKey = PublicKey +
  keyD :: int
  Primes :: "int list"
  Precomputed :: PrecomputedValues

text \<open>
  The random source is the list of the integers that successive calls of
  \<^verbatim>\<open>rand.Int(random, max)\<close> deliver; an exhausted source makes the call return an error,
  and \<^verbatim>\<open>rand.Int\<close> panics when \<open>max \<le> 0\<close>. \<open>None\<close> is the nil reader.
\<close>

definition rand_Int :: "int list \<Rightarrow> int \<Rightarrow> (int \<times> int list) result" where
  "rand_Int random maxv =
     (if maxv \<le> 0 then Panic
      else case random of [] \<Rightarrow> Err ErrRandom | r # rest \<Rightarrow> Ok (r, rest))"

section \<open>utils.go\<close>

type_synonym counter = "byte \<times> byte \<times> byte \<times> byte"

definition incCounter :: "counter \<Rightarrow> counter" where
  "incCounter c =
     (case c of (c0, c1, c2, c3) \<Rightarrow>
        let c3 = c3 + 1 in
        if c3 \<noteq> 0 then (c0, c1, c2, c3)
        else let c2 = c2 + 1 in
        if c2 \<noteq> 0 then (c0, c1, c2, c3)
        else let c1 = c1 + 1 in
        if c1 \<noteq> 0 then (c0, c1, c2, c3)
        else (c0 + 1, c1, c2, c3))"

definition counter_bytes :: "counter \<Rightarrow> byte list" where
  "counter_bytes c = (case c of (c0, c1, c2, c3) \<Rightarrow> [c0, c1, c2, c3])"

text \<open>
  The inner loop of \<^verbatim>\<open>mgf1XOR\<close>, over the digest bytes not yet used:
  \<^verbatim>\<open>for i := 0; i < len(digest) && done < len(out); i++ { out[done] ^= digest[i]; done++ }\<close>.
\<close>

fun xor_loop :: "byte list \<Rightarrow> nat \<Rightarrow> byte list \<Rightarrow> byte list \<times> nat" where
  "xor_loop out done [] = (out, done)"
| "xor_loop out done (d # ds) =
     (if done < length out then xor_loop (out[done := out ! done XOR d]) (Suc done) ds
      else (out, done))"

text \<open>
  The outer loop may run forever (a hash whose digests are empty never advances
  \<open>done\<close>), so it is a partial function: \<open>None\<close> is a run that does not return.
  It returns the buffer and the hash instance as the call leaves them.
\<close>

partial_function (option) mgf1XOR_loop ::
    "byte list \<Rightarrow> hash \<Rightarrow> byte list \<Rightarrow> counter \<Rightarrow> nat \<Rightarrow> (byte list \<times> hash) option" where
  "mgf1XOR_loop out hash seed counter done =
     (if done < length out then
        (let hash1 = hash_Write (hash_Write hash seed) (counter_bytes counter);
             digest = hash_Sum hash1 [];
             hash2 = hash_Reset hash1
         in case xor_loop out done digest of
              (out', done') \<Rightarrow> mgf1XOR_loop out' hash2 seed (incCounter counter) done')
      else Some (out, hash))"

declare mgf1XOR_loop.simps [code]

definition mgf1XOR :: "byte list \<Rightarrow> hash \<Rightarrow> byte list \<Rightarrow> (byte list \<times> hash) option" where
  "mgf1XOR out hash seed = mgf1XOR_loop out hash seed (0, 0, 0, 0) 0"

text \<open>\<open>None\<close> is the result \<^verbatim>\<open>(nil, false)\<close>, \<open>Some ia\<close> the result \<^verbatim>\<open>(ia, true)\<close>.\<close>

definition modInverse :: "int \<Rightarrow> int \<Rightarrow> int option" where
  "modInverse a n =
     (case bigGCD a n of (g, x, y) \<Rightarrow>
        if g \<noteq> 1 then None
        else Some (if x < 1 then x + n else x))"

definition encrypt :: "PublicKey \<Rightarrow> int \<Rightarrow> int" where
  "encrypt pub m = bigExp m (keyE pub) (keyN pub)"

text \<open>The blinding loop of \<^verbatim>\<open>decrypt\<close>: it returns \<open>r\<close> and its inverse \<open>ir\<close>.\<close>

function blinding_loop :: "int list \<Rightarrow> int \<Rightarrow> (int \<times> int) result" where
  "blinding_loop random n =
     (case rand_Int random n of
        Panic \<Rightarrow> Panic
      | Err e \<Rightarrow> Err e
      | Ok (r0, random') \<Rightarrow>
          let r = (if r0 = 0 then 1 else r0)
          in (case modInverse r n of
                Some ir \<Rightarrow> Ok (r, ir)
              | None \<Rightarrow> blinding_loop random' n))"
  by pat_completeness auto
termination
  by (relation "measure (\<lambda>(random, n). length random)")
    (auto simp: rand_Int_def split: if_splits list.splits)

text \<open>The loop over \<^verbatim>\<open>priv.Precomputed.CRTValues\<close>, with the index \<open>i\<close> of the range.\<close>

fun crt_loop :: "int list \<Rightarrow> int \<Rightarrow> nat \<Rightarrow> CRTValue list \<Rightarrow> int \<Rightarrow> int result" where
  "crt_loop primes c i [] m = Ok m"
| "crt_loop primes c i (values # rest) m =
     (if length primes \<le> 2 + i then Panic
      else let prime = primes ! (2 + i);
               m2 = bigExp c (crtExp values) prime;
               m2 = m2 - m;
               m2 = m2 * crtCoeff values
           in if prime = 0 then Panic
              else let m2 = bigMod m2 prime;
                       m2 = (if m2 < 0 then m2 + prime else m2);
                       m2 = m2 * crtR values
                   in crt_loop primes c (Suc i) rest (m + m2))"

text \<open>The exponentiation of \<^verbatim>\<open>decrypt\<close>: directly, or by the precomputed CRT values.\<close>

definition decrypt_exp :: "PrivateKey \<Rightarrow> int \<Rightarrow> int result" where
  "decrypt_exp priv c =
     (case Dp (Precomputed priv) of
        None \<Rightarrow> Ok (bigExp c (keyD priv) (keyN priv))
      | Some dp \<Rightarrow>
          if length (Primes priv) < 2 then Panic
          else let p0 = Primes priv ! 0;
                   p1 = Primes priv ! 1;
                   m = bigExp c dp p0;
                   m2 = bigExp c (Dq (Precomputed priv)) p1;
                   m = m - m2;
                   m = (if m < 0 then m + p0 else m);
                   m = m * Qinv (Precomputed priv)
               in if p0 = 0 then Panic
                  else let m = bigMod m p0;
                           m = m * p1;
                           m = m + m2
                       in crt_loop (Primes priv) c 0 (CRTValues (Precomputed priv)) m)"

definition decrypt :: "int list option \<Rightarrow> PrivateKey \<Rightarrow> int \<Rightarrow> int result" where
  "decrypt random priv c =
     (if c > keyN priv then Err ErrDecryption
      else case random of
        None \<Rightarrow> decrypt_exp priv c
      | Some rd \<Rightarrow>
          (case blinding_loop rd (keyN priv) of
             Panic \<Rightarrow> Panic
           | Err e \<Rightarrow> Err e
           | Ok (r, ir) \<Rightarrow>
               let rpowe = bigExp r (keyE priv) (keyN priv);
                   cCopy = bigMod (c * rpowe) (keyN priv)
               in (case decrypt_exp priv cCopy of
                     Panic \<Rightarrow> Panic
                   | Err e \<Rightarrow> Err e
                   | Ok m \<Rightarrow> Ok (bigMod (m * ir) (keyN priv)))))"

text \<open>
  \<^verbatim>\<open>copyWithLeftPad\<close>: the slice \<^verbatim>\<open>dest[numPaddingBytes:]\<close> panics when \<open>src\<close> is longer
  than \<open>dest\<close>.
\<close>

definition copyWithLeftPad :: "byte list \<Rightarrow> byte list \<Rightarrow> byte list result" where
  "copyWithLeftPad dest src =
     (let numPaddingBytes = sub64 (int (length dest)) (int (length src));
          dest1 = fold (\<lambda>i d. d[i := 0]) [0..<nat numPaddingBytes] dest
      in if numPaddingBytes < 0 then Panic
         else Ok (take (nat numPaddingBytes) dest1 @ go_copy (drop (nat numPaddingBytes) dest1) src))"

section \<open>pss.go\<close>

text \<open>
  \<^verbatim>\<open>emsaPSSEncode\<close> works in the buffer \<open>em\<close>: \<open>db\<close> is its first \<open>dbLen\<close> bytes and
  \<open>h\<close> starts right after, with room (capacity) for \<open>hLen + 1\<close> bytes, so
  \<^verbatim>\<open>hash.Sum(h[:0])\<close> writes the digest into \<open>em\<close> when it fits. \<^verbatim>\<open>mgf1XOR\<close> changes
  \<open>db\<close> in place and reads the seed \<open>h\<close>, which \<open>db\<close> does not overlap.
\<close>

definition emsaPSSEncode :: "byte list \<Rightarrow> int \<Rightarrow> byte list \<Rightarrow> hash \<Rightarrow> byte list result option" where
  "emsaPSSEncode mHash emBits salt hash =
     (let hLen = hash_Size hash;
          sLen = int (length salt);
          emLen = quoT (add64 emBits 7) 8
      in if int (length mHash) \<noteq> hLen then Some (Err ErrNotHashed)
         else if emLen < add64 (add64 hLen sLen) 2 then Some (Err ErrEncoding)
         else
           let em = replicate (nat emLen) (0 :: byte);
               dbLen = nat (add64 (add64 (sub64 (sub64 (sub64 emLen sLen) hLen) 2) 1) sLen);
               hash1 = hash_Write (hash_Write (hash_Write hash (replicate 8 0)) mHash) salt;
               h = hash_Sum hash1 [];
               em = (if length h \<le> nat emLen - dbLen
                     then take dbLen em @ h @ drop (dbLen + length h) em else em);
               hash2 = hash_Reset hash1;
               em = em[nat (sub64 (sub64 (sub64 emLen sLen) hLen) 2) := 1];
               lo = nat (sub64 (sub64 (sub64 emLen sLen) hLen) 1);
               em = take lo em @ go_copy (take (dbLen - lo) (drop lo em)) salt @ drop dbLen em
           in case mgf1XOR (take dbLen em) hash2 h of
                None \<Rightarrow> None
              | Some (db, hash3) \<Rightarrow>
                  let em = db @ drop dbLen em;
                      em = em[0 := em ! 0 AND drop_bit (go_uint (sub64 (mul64 8 emLen) emBits)) 0xFF];
                      em = em[nat (sub64 emLen 1) := 0xBC]
                  in Some (Ok em))"

text \<open>The two loops of \<^verbatim>\<open>emsaPSSVerify\<close>: over the padding, and over the digest \<open>h0\<close>.\<close>

fun zero_check :: "byte list \<Rightarrow> bool" where
  "zero_check [] = True"
| "zero_check (e # es) = (if e \<noteq> 0 then False else zero_check es)"

fun digest_check :: "byte list \<Rightarrow> byte list \<Rightarrow> unit result" where
  "digest_check [] h = Ok ()"
| "digest_check (e # es) [] = Panic"
| "digest_check (e # es) (x # xs) = (if e \<noteq> x then Err ErrVerification else digest_check es xs)"

definition emsaPSSVerify ::
    "byte list \<Rightarrow> byte list \<Rightarrow> int \<Rightarrow> int \<Rightarrow> hash \<Rightarrow> unit result option" where
  "emsaPSSVerify mHash em emBits sLen hash =
     (let hLen = hash_Size hash
      in if hLen \<noteq> int (length mHash) then Some (Err ErrVerification)
      else let emLen = quoT (add64 emBits 7) 8
      in if emLen < add64 (add64 hLen sLen) 2 then Some (Err ErrVerification)
      else if em = [] then Some Panic
      else if em ! (length em - 1) \<noteq> 0xBC then Some (Err ErrVerification)
      else let dbLen = sub64 (sub64 emLen hLen) 1
      in if dbLen < 0 \<or> int (length em) < dbLen then Some Panic
      else if sub64 (int (length em)) 1 < dbLen then Some Panic
      else let h = take (length em - 1 - nat dbLen) (drop (nat dbLen) em)
      in if em ! 0 AND push_bit (go_uint (sub64 8 (sub64 (mul64 8 emLen) emBits))) 0xFF \<noteq> 0
         then Some (Err ErrVerification)
      else case mgf1XOR (take (nat dbLen) em) hash h of
        None \<Rightarrow> None
      | Some (db, hash1) \<Rightarrow>
          if db = [] then Some Panic
          else let db = db[0 := db ! 0 AND drop_bit (go_uint (sub64 (mul64 8 emLen) emBits)) 0xFF];
                   em = db @ drop (nat dbLen) em;
                   psLen = sub64 (sub64 (sub64 emLen hLen) sLen) 2
          in if psLen < 0 \<or> int (length em) < psLen then Some Panic
          else if \<not> zero_check (take (nat psLen) em) then Some (Err ErrVerification)
          else if int (length db) \<le> psLen then Some Panic
          else if db ! nat psLen \<noteq> 0x01 then Some (Err ErrVerification)
          else if sub64 (int (length db)) sLen < 0 \<or> int (length db) < sub64 (int (length db)) sLen
               then Some Panic
          else let salt = drop (nat (sub64 (int (length db)) sLen)) db;
                   hash2 = hash_Write (hash_Write (hash_Write hash1 (replicate 8 0)) mHash) salt;
                   h0 = hash_Sum hash2 []
          in Some (digest_check h0 h))"

definition SignPSS ::
    "int list option \<Rightarrow> PrivateKey \<Rightarrow> crypto_Hash \<Rightarrow> byte list \<Rightarrow> byte list
      \<Rightarrow> byte list result option" where
  "SignPSS rand priv hash hashed salt =
     (case emsaPSSEncode hashed (sub64 (BitLen (keyN priv)) 1) salt (hash_New hash) of
        None \<Rightarrow> None
      | Some Panic \<Rightarrow> Some Panic
      | Some (Err e) \<Rightarrow> Some (Err e)
      | Some (Ok em) \<Rightarrow>
          let m = SetBytes em
          in (case decrypt rand priv m of
                Panic \<Rightarrow> Some Panic
              | Err e \<Rightarrow> Some (Err e)
              | Ok c \<Rightarrow>
                  let s = replicate (nat (quoT (add64 (BitLen (keyN priv)) 7) 8)) (0 :: byte)
                  in Some (copyWithLeftPad s (Bytes c))))"

definition VerifyPSS ::
    "PublicKey \<Rightarrow> crypto_Hash \<Rightarrow> byte list \<Rightarrow> byte list \<Rightarrow> int \<Rightarrow> unit result option" where
  "VerifyPSS pub hash hashed sig sLen =
     (let s = SetBytes sig;
          m = encrypt pub s;
          emBits = sub64 (BitLen (keyN pub)) 1;
          emLen = quoT (add64 emBits 7) 8
      in if emLen < int (length (Bytes m)) then Some (Err ErrVerification)
         else let em = replicate (nat emLen) (0 :: byte)
         in case copyWithLeftPad em (Bytes m) of
              Panic \<Rightarrow> Some Panic
            | Err e \<Rightarrow> Some (Err e)
            | Ok em \<Rightarrow> emsaPSSVerify hashed em (sub64 (BitLen (keyN pub)) 1) sLen (hash_New hash))"

section \<open>Specification-level notions\<close>

text \<open>
  A hash is well formed when \<^verbatim>\<open>Sum\<close> appends exactly \<^verbatim>\<open>Size()\<close> bytes, and at least one.
\<close>

definition hash_ok :: "'a crypto_Hash_scheme \<Rightarrow> bool" where
  "hash_ok h = (0 < hsize h \<and> (\<forall>x. length (hfun h x) = hsize h))"

definition xor_bytes :: "byte list \<Rightarrow> byte list \<Rightarrow> byte list" where
  "xor_bytes xs ys = map2 (XOR) xs ys"

text \<open>
  The mask of MGF1 as the specification words it: the digests of the seed followed by a
  four-byte big-endian counter that starts at the given value and advances by one, cut
  to \<open>n\<close> bytes. The first digest also covers what the instance holds already.
\<close>

function mgf1_mask :: "hash \<Rightarrow> byte list \<Rightarrow> counter \<Rightarrow> nat \<Rightarrow> byte list" where
  "mgf1_mask hash seed c n =
     (let digest = hfun hash (written hash @ seed @ counter_bytes c)
      in if n = 0 \<or> digest = [] then []
         else take n digest @ mgf1_mask (hash\<lparr>written := []\<rparr>) seed (incCounter c) (n - length digest))"
  by pat_completeness auto
termination
  by (relation "measure (\<lambda>(hash, seed, c, n). n)") auto

declare mgf1_mask.simps [simp del]

text \<open>
  The encoded message as the specification lays it out: \<open>maskedDB || H || 0xBC\<close>, with
  \<open>H\<close> the digest of eight zero bytes, the message digest and the salt,
  \<open>DB = PS || 0x01 || salt\<close>, and the top \<open>8 * emLen - emBits\<close> bits of the first
  byte of \<open>DB XOR MGF1(H)\<close> cleared.
\<close>

definition pss_H :: "hash \<Rightarrow> byte list \<Rightarrow> byte list \<Rightarrow> byte list" where
  "pss_H hash mHash salt = hfun hash (written hash @ replicate 8 0 @ mHash @ salt)"

definition pss_DB :: "nat \<Rightarrow> nat \<Rightarrow> byte list \<Rightarrow> byte list" where
  "pss_DB emLen hLen salt = replicate (emLen - length salt - hLen - 2) 0 @ [1] @ salt"

definition clear_top :: "nat \<Rightarrow> byte list \<Rightarrow> byte list" where
  "clear_top k db = db[0 := db ! 0 AND drop_bit k 0xFF]"

definition pss_EM :: "hash \<Rightarrow> byte list \<Rightarrow> int \<Rightarrow> byte list \<Rightarrow> byte list" where
  "pss_EM hash mHash emBits salt =
     (let emLen = nat ((emBits + 7) div 8);
          H = pss_H hash mHash salt;
          DB = pss_DB emLen (hsize hash) salt;
          maskedDB = clear_top (8 * emLen - nat emBits)
                       (xor_bytes DB (mgf1_mask (hash_Reset hash) H (0, 0, 0, 0) (length DB)))
      in maskedDB @ H @ [0xBC])"





section \<open>Example data\<close>

text \<open>
  A one-byte digest function and a small key, \<open>133897 = 257 * 521\<close> with
  \<open>3 * 5547 = 16641 = 65 * 256 + 1 = 32 * 520 + 1\<close>, on which the theorems are run.
\<close>

definition toy_hfun :: "byte list \<Rightarrow> byte list" where
  "toy_hfun bs = [foldl (\<lambda>a b. a * 31 + b + 7) 0x5C bs]"

definition toyHash :: crypto_Hash where
  "toyHash = \<lparr>hfun = toy_hfun, hsize = 1\<rparr>"

definition toyPub :: PublicKey where
  "toyPub = \<lparr>keyN = 133897, keyE = 3\<rparr>"



section \<open>The modular inverse\<close>

lemma quoT_nonneg: "0 \<le> a \<Longrightarrow> 0 < b \<Longrightarrow> quoT a b = a div b"
  by (cases "a = 0") (simp_all add: quoT_def)

lemma remT_nonneg: "0 \<le> a \<Longrightarrow> 0 < b \<Longrightarrow> remT a b = a mod b"
  by (simp add: remT_def quoT_nonneg minus_mult_div_eq_mod)

lemma abs_cofactor_step:
  fixes X lastX q :: int
  assumes "lastX * X \<le> 0" "0 \<le> q"
  shows "\<bar>lastX - X * q\<bar> = \<bar>lastX\<bar> + \<bar>X\<bar> * q"
proof -
  consider "X = 0" | "0 < X" | "X < 0" by linarith
  then show ?thesis
  proof cases
    case 1
    then show ?thesis by simp
  next
    case 2
    then have "lastX \<le> 0" using assms(1) by (simp add: mult_le_0_iff)
    moreover have "0 \<le> X * q" using 2 assms(2) by simp
    ultimately show ?thesis using 2 by simp
  next
    case 3
    then have "0 \<le> lastX" using assms(1) by (simp add: mult_le_0_iff)
    moreover have "X * q \<le> 0" using 3 assms(2) by (simp add: mult_le_0_iff)
    ultimately show ?thesis using 3 by simp
  qed
qed

lemma bigGCD_loop_inv:
  assumes "0 < A" "0 \<le> B" "A = a * lastX + b * lastY" "B = a * X + b * Y"
    "lastX * X \<le> 0" "\<bar>X\<bar> * A + \<bar>lastX\<bar> * B = b" "\<bar>lastX\<bar> \<le> b"
  shows "case bigGCD_loop A B X Y lastX lastY of
           (g, x, y) \<Rightarrow> g = gcd A B \<and> g = a * x + b * y \<and> \<bar>x\<bar> \<le> b"
  using assms
proof (induction A B X Y lastX lastY rule: bigGCD_loop.induct)
  case (1 A B X Y lastX lastY)
  show ?case
  proof (cases "B = 0")
    case True
    with "1.prems" show ?thesis by (subst bigGCD_loop.simps) simp
  next
    case False
    with "1.prems" have Bpos: "0 < B" by simp
    define q where "q = A div B"
    define r where "r = A mod B"
    have qT: "quoT A B = q" and rT: "remT A B = r"
      using "1.prems"(1) Bpos by (simp_all add: q_def r_def quoT_nonneg remT_nonneg)
    have q0: "0 \<le> q" using "1.prems"(1) Bpos by (simp add: q_def pos_imp_zdiv_nonneg_iff)
    have r0: "0 \<le> r" using Bpos by (simp add: r_def)
    have rq: "r = A - B * q" by (simp add: r_def q_def minus_mult_div_eq_mod)
    have e1: "r = a * (lastX - X * q) + b * (lastY - Y * q)"
      unfolding rq using "1.prems"(3,4) by (simp add: algebra_simps)
    have e2: "X * (lastX - X * q) \<le> 0"
    proof -
      have "X * (lastX - X * q) = lastX * X - (X * X) * q" by (simp add: algebra_simps)
      moreover have "0 \<le> (X * X) * q" using q0 by simp
      ultimately show ?thesis using "1.prems"(5) by linarith
    qed
    have e3: "\<bar>lastX - X * q\<bar> * B + \<bar>X\<bar> * r = b"
    proof -
      have "\<bar>lastX - X * q\<bar> * B + \<bar>X\<bar> * r = (\<bar>lastX\<bar> + \<bar>X\<bar> * q) * B + \<bar>X\<bar> * (A - B * q)"
        using abs_cofactor_step[OF "1.prems"(5) q0] rq by simp
      also have "\<dots> = \<bar>X\<bar> * A + \<bar>lastX\<bar> * B" by (simp add: algebra_simps)
      finally show ?thesis using "1.prems"(6) by simp
    qed
    have e4: "\<bar>X\<bar> \<le> b"
    proof -
      have "\<bar>X\<bar> * 1 \<le> \<bar>X\<bar> * A" using "1.prems"(1) by (intro mult_left_mono) simp_all
      moreover have "0 \<le> \<bar>lastX\<bar> * B" using "1.prems"(2) by simp
      ultimately show ?thesis using "1.prems"(6) by linarith
    qed
    have IH: "case bigGCD_loop B r (lastX - X * q) (lastY - Y * q) X Y of
           (g, x, y) \<Rightarrow> g = gcd B r \<and> g = a * x + b * y \<and> \<bar>x\<bar> \<le> b"
      using "1.IH"[OF False qT[symmetric] rT[symmetric] Bpos r0 "1.prems"(4) e1 e2 e3 e4] .
    have g: "gcd B r = gcd A B" using gcd_red_int[of A B] by (simp add: r_def)
    have "bigGCD_loop A B X Y lastX lastY = bigGCD_loop B r (lastX - X * q) (lastY - Y * q) X Y"
      using False by (subst bigGCD_loop.simps) (simp add: qT rT Let_def)
    then show ?thesis using IH g by simp
  qed
qed

lemma bigGCD_correct:
  assumes "0 < a" "0 < b"
  shows "case bigGCD a b of (g, x, y) \<Rightarrow> g = gcd a b \<and> g = a * x + b * y \<and> \<bar>x\<bar> \<le> b"
proof -
  have "case bigGCD_loop a b 0 1 1 0 of (g, x, y) \<Rightarrow> g = gcd a b \<and> g = a * x + b * y \<and> \<bar>x\<bar> \<le> b"
    using assms by (intro bigGCD_loop_inv) simp_all
  then show ?thesis using assms by (simp add: bigGCD_def)
qed

text \<open>
  Claim C10. For all positive big integers \<open>a < n\<close>, \<^verbatim>\<open>modInverse(a, n)\<close> returns
  \<open>ok = true\<close> if and only if \<open>gcd a n = 1\<close>; the value \<open>ia\<close> it then returns satisfies
  \<open>0 \<le> ia < n\<close> and \<open>(a * ia) mod n = 1\<close>; when \<open>gcd a n \<noteq> 1\<close> it returns \<open>ok = false\<close>
  and no inverse.
\<close>

theorem modInverse_correct:
  assumes "0 < a" "a < n"
  shows "case modInverse a n of
           None \<Rightarrow> gcd a n \<noteq> 1
         | Some ia \<Rightarrow> gcd a n = 1 \<and> 0 \<le> ia \<and> ia < n \<and> (a * ia) mod n = 1"
proof -
  obtain g x y where gxy: "bigGCD a n = (g, x, y)" by (cases "bigGCD a n") auto
  have n: "1 < n" using assms by simp
  have c: "g = gcd a n" "g = a * x + n * y" "\<bar>x\<bar> \<le> n"
    using bigGCD_correct[of a n] assms gxy by simp_all
  show ?thesis
  proof (cases "g = 1")
    case False
    then show ?thesis using c(1) gxy by (simp add: modInverse_def)
  next
    case True
    have bez: "a * x + n * y = 1" using True c(2) by simp
    have xn: "x \<noteq> n"
    proof
      assume "x = n"
      then have "n * (a + y) = 1" using bez by (simp add: algebra_simps)
      then have "n dvd 1" by (metis dvd_triv_left)
      then show False using n by simp
    qed
    have xmn: "x \<noteq> - n"
    proof
      assume "x = - n"
      then have "n * (y - a) = 1" using bez by (simp add: algebra_simps)
      then have "n dvd 1" by (metis dvd_triv_left)
      then show False using n by simp
    qed
    have x0: "x \<noteq> 0"
    proof
      assume "x = 0"
      then have "n * y = 1" using bez by simp
      then have "n dvd 1" by (metis dvd_triv_left)
      then show False using n by simp
    qed
    define ia where "ia = (if x < 1 then x + n else x)"
    have r: "0 \<le> ia" "ia < n" using c(3) xn xmn x0 by (auto simp: ia_def)
    have "(a * ia) mod n = (a * x) mod n"
      by (simp add: ia_def algebra_simps)
    also have "\<dots> = (a * x + n * y) mod n" by simp
    also have "\<dots> = 1" using bez n by simp
    finally have "(a * ia) mod n = 1" .
    then show ?thesis using True c(1) gxy r by (simp add: modInverse_def ia_def)
  qed
qed

text \<open>The inverse of 3 modulo 16640 is 5547.\<close>

theorem modInverse_correct_witness:
  "(0::int) < 3 \<and> (3::int) < 16640 \<and> modInverse 3 16640 = Some 5547 \<and> gcd (3::int) 16640 = 1
     \<and> (3 * 5547) mod 16640 = (1::int)"
proof -
  have "modInverse 3 16640 = Some 5547" by code_simp
  then show ?thesis using modInverse_correct[of 3 16640] by simp
qed

section \<open>The mask generation function\<close>

lemma length_xor_bytes: "length (xor_bytes xs ys) = min (length xs) (length ys)"
  by (simp add: xor_bytes_def)

lemma xor_bytes_Nil [simp]: "xor_bytes [] ys = []" "xor_bytes xs [] = []"
  by (simp_all add: xor_bytes_def)

lemma xor_bytes_Cons: "xor_bytes (x # xs) (y # ys) = (x XOR y) # xor_bytes xs ys"
  by (simp add: xor_bytes_def)

lemma xor_bytes_append2:
  "xor_bytes xs (ys @ zs) = xor_bytes xs ys @ xor_bytes (drop (length ys) xs) zs"
proof -
  have "zip xs (ys @ zs) = zip (take (length ys) xs) ys @ zip (drop (length ys) xs) zs"
    by (rule zip_append2)
  moreover have "zip (take (length ys) xs) ys = zip xs ys"
    by (induction xs ys rule: list_induct2') simp_all
  ultimately show ?thesis by (simp add: xor_bytes_def)
qed

lemma xor_bytes_take: "xor_bytes xs (take (length xs) ys) = xor_bytes xs ys"
  unfolding xor_bytes_def by (induction xs ys rule: list_induct2') simp_all

lemma hash_ok_nonempty: "hash_ok h \<Longrightarrow> hfun h x \<noteq> []"
proof -
  assume "hash_ok h"
  then have "0 < hsize h" "length (hfun h x) = hsize h" by (simp_all add: hash_ok_def)
  then show ?thesis by auto
qed

lemma xor_loop_append:
  "xor_loop (pre @ rest) (length pre) ds =
     (pre @ xor_bytes rest ds @ drop (length ds) rest, length pre + min (length ds) (length rest))"
proof (induction ds arbitrary: pre rest)
  case Nil
  then show ?case by simp
next
  case (Cons d ds)
  show ?case
  proof (cases rest)
    case Nil
    then show ?thesis by simp
  next
    case (Cons r rs)
    have "xor_loop (pre @ r # rs) (length pre) (d # ds)
            = xor_loop ((pre @ [r XOR d]) @ rs) (length (pre @ [r XOR d])) ds"
      by simp
    also have "\<dots> = ((pre @ [r XOR d]) @ xor_bytes rs ds @ drop (length ds) rs,
                      length (pre @ [r XOR d]) + min (length ds) (length rs))"
      by (rule Cons.IH)
    finally show ?thesis using Cons by (simp add: xor_bytes_Cons)
  qed
qed

lemma mgf1XOR_loop_mask:
  assumes ok: "hash_ok hash"
  shows "mgf1XOR_loop (pre @ rest) hash seed c (length pre) =
           Some (pre @ xor_bytes rest (mgf1_mask hash seed c (length rest)),
                 if rest = [] then hash else hash_Reset hash)"
  using ok
proof (induction "length rest" arbitrary: pre rest hash c rule: less_induct)
  case less
  show ?case
  proof (cases "rest = []")
    case True
    then show ?thesis by (subst mgf1XOR_loop.simps) simp
  next
    case False
    define digest where "digest = hfun hash (written hash @ seed @ counter_bytes c)"
    define hash2 where "hash2 = hash_Reset hash"
    have dne: "digest \<noteq> []" "0 < length digest"
      using hash_ok_nonempty[OF less.prems] by (simp_all add: digest_def)
    have ok2: "hash_ok hash2" using less.prems by (simp add: hash_ok_def hash2_def hash_Reset_def)
    have h2: "hash_Reset (hash_Write (hash_Write hash seed) (counter_bytes c)) = hash2"
      by (simp add: hash2_def hash_Reset_def hash_Write_def)
    have sum: "hash_Sum (hash_Write (hash_Write hash seed) (counter_bytes c)) [] = digest"
      by (simp add: hash_Sum_def hash_Write_def digest_def)
    define pre' where "pre' = pre @ xor_bytes rest digest"
    define rest' where "rest' = drop (length digest) rest"
    have lp: "length pre' = length pre + min (length digest) (length rest)"
      by (simp add: pre'_def length_xor_bytes min.commute)
    have shorter: "length rest' < length rest"
      using False dne by (simp add: rest'_def)
    have step: "mgf1XOR_loop (pre @ rest) hash seed c (length pre)
                  = mgf1XOR_loop (pre' @ rest') hash2 seed (incCounter c) (length pre')"
      using False
      by (subst mgf1XOR_loop.simps)
        (simp add: Let_def sum h2 xor_loop_append pre'_def rest'_def length_xor_bytes min.commute)
    have IH: "mgf1XOR_loop (pre' @ rest') hash2 seed (incCounter c) (length pre') =
           Some (pre' @ xor_bytes rest' (mgf1_mask hash2 seed (incCounter c) (length rest')),
                 if rest' = [] then hash2 else hash_Reset hash2)"
      by (rule less.hyps[OF shorter ok2])
    have r2: "hash_Reset hash2 = hash2" by (simp add: hash2_def hash_Reset_def)
    have mask: "mgf1_mask hash seed c (length rest) =
                  take (length rest) digest @ mgf1_mask hash2 seed (incCounter c) (length rest - length digest)"
      using False dne
      by (subst mgf1_mask.simps) (simp add: Let_def digest_def hash2_def hash_Reset_def)
    have "xor_bytes rest (mgf1_mask hash seed c (length rest)) =
            xor_bytes rest (take (length rest) digest)
             @ xor_bytes (drop (length (take (length rest) digest)) rest)
                 (mgf1_mask hash2 seed (incCounter c) (length rest - length digest))"
      unfolding mask by (rule xor_bytes_append2)
    also have "xor_bytes rest (take (length rest) digest) = xor_bytes rest digest"
      by (rule xor_bytes_take)
    also have "xor_bytes (drop (length (take (length rest) digest)) rest)
                 (mgf1_mask hash2 seed (incCounter c) (length rest - length digest))
             = xor_bytes rest' (mgf1_mask hash2 seed (incCounter c) (length rest'))"
    proof (cases "length digest \<le> length rest")
      case True
      then show ?thesis by (simp add: rest'_def min_def)
    next
      case False
      then show ?thesis by (simp add: rest'_def min_def)
    qed
    finally have eq: "xor_bytes rest (mgf1_mask hash seed c (length rest)) =
        xor_bytes rest digest @ xor_bytes rest' (mgf1_mask hash2 seed (incCounter c) (length rest'))" .
    have "mgf1XOR_loop (pre @ rest) hash seed c (length pre) =
            Some (pre' @ xor_bytes rest' (mgf1_mask hash2 seed (incCounter c) (length rest')), hash2)"
      unfolding step IH r2 by simp
    then show ?thesis
      using False by (simp add: eq pre'_def hash2_def)
  qed
qed

lemma length_mgf1_mask:
  "hash_ok hash \<Longrightarrow> length (mgf1_mask hash seed c n) = n"
proof (induction n arbitrary: hash c rule: less_induct)
  case (less n)
  show ?case
  proof (cases "n = 0")
    case True
    then show ?thesis by (subst mgf1_mask.simps) simp
  next
    case False
    define digest where "digest = hfun hash (written hash @ seed @ counter_bytes c)"
    have dne: "digest \<noteq> []" "0 < length digest"
      using hash_ok_nonempty[OF less.prems] by (simp_all add: digest_def)
    have ok2: "hash_ok (hash\<lparr>written := []\<rparr>)" using less.prems by (simp add: hash_ok_def)
    have "length (mgf1_mask (hash\<lparr>written := []\<rparr>) seed (incCounter c) (n - length digest)) = n - length digest"
      using False dne by (intro less.IH ok2) simp
    then show ?thesis
      using False dne
      by (subst mgf1_mask.simps) (simp add: Let_def digest_def[symmetric] min_def)
  qed
qed

lemma toyHash_ok: "hash_ok toyHash" "hash_ok (hash_New toyHash)"
  by (simp_all add: hash_ok_def toyHash_def toy_hfun_def hash_New_def)

text \<open>
  Claim C9. \<^verbatim>\<open>mgf1XOR\<close> is deterministic: two runs over equal starting buffers with
  identical seed, output length and hash produce identical resulting buffers, and the
  mask XORed in is a function of the seed, the buffer length and the hash alone. For a
  well-formed hash the call returns, and the buffer it leaves is the starting buffer
  XORed with \<open>mgf1_mask\<close>, which does not look at the buffer's contents.
\<close>

theorem mgf1XOR_deterministic:
  assumes "hash_ok hash"
  shows "mgf1XOR out hash seed =
           Some (xor_bytes out (mgf1_mask hash seed (0, 0, 0, 0) (length out)),
                 if out = [] then hash else hash_Reset hash)
         \<and> length (mgf1_mask hash seed (0, 0, 0, 0) (length out)) = length out"
  using mgf1XOR_loop_mask[OF assms, of "[]" out seed "(0, 0, 0, 0)"] length_mgf1_mask[OF assms]
  by (simp add: mgf1XOR_def)

text \<open>Two three-byte buffers under the same seed: the same mask \<open>[28, 29, 30]\<close>.\<close>

theorem mgf1XOR_deterministic_witness:
  "hash_ok (hash_New toyHash) \<and>
   mgf1XOR [1, 2, 3] (hash_New toyHash) [9, 9] = Some ([29, 31, 29], hash_New toyHash) \<and>
   mgf1XOR [0, 0, 0] (hash_New toyHash) [9, 9] = Some ([28, 29, 30], hash_New toyHash) \<and>
   mgf1_mask (hash_New toyHash) [9, 9] (0, 0, 0, 0) 3 = [28, 29, 30]"
proof -
  have m: "mgf1_mask (hash_New toyHash) [9, 9] (0, 0, 0, 0) 3 = [28, 29, 30]"
    by code_simp
  have r: "hash_Reset (hash_New toyHash) = hash_New toyHash"
    by (simp add: hash_Reset_def hash_New_def)
  have l: "length [1, 2, 3 :: byte] = 3" "length [0, 0, 0 :: byte] = 3"
    by simp_all
  have x: "xor_bytes [1, 2, 3] [28, 29, 30] = [29, 31, 29]"
    "xor_bytes [0, 0, 0] [28, 29, 30] = [28, 29, 30]"
    by (simp_all add: xor_bytes_def)
  have "mgf1XOR [1, 2, 3] (hash_New toyHash) [9, 9] = Some ([29, 31, 29], hash_New toyHash)"
    using mgf1XOR_deterministic[OF toyHash_ok(2), of "[1, 2, 3]" "[9, 9]"]
    unfolding l m x r by simp
  moreover
  have "mgf1XOR [0, 0, 0] (hash_New toyHash) [9, 9] = Some ([28, 29, 30], hash_New toyHash)"
    using mgf1XOR_deterministic[OF toyHash_ok(2), of "[0, 0, 0]" "[9, 9]"]
    unfolding l m x r by simp
  ultimately show ?thesis
    using toyHash_ok(2) m by simp
qed

section \<open>EMSA-PSS encoding\<close>

lemma quoT_8_small: "quoT a 8 \<le> 0" if "a < 8" for a :: int
proof (cases "0 \<le> a")
  case True
  then show ?thesis using that by (simp add: quoT_nonneg)
next
  case False
  then have "sgn a = -1" by simp
  moreover have "0 \<le> \<bar>a\<bar> div 8" by simp
  ultimately show ?thesis by (simp add: quoT_def)
qed

lemma emLen_facts:
  assumes "2 \<le> quoT (emBits + 7) 8"
  shows "9 \<le> emBits" "quoT (emBits + 7) 8 = (emBits + 7) div 8"
    "0 \<le> 8 * ((emBits + 7) div 8) - emBits" "8 * ((emBits + 7) div 8) - emBits < 8"
proof -
  have "\<not> emBits + 7 < 8" using quoT_8_small[of "emBits + 7"] assms by linarith
  then have p: "0 \<le> emBits + 7" by simp
  then show q: "quoT (emBits + 7) 8 = (emBits + 7) div 8" by (simp add: quoT_nonneg)
  show "9 \<le> emBits" using assms unfolding q by linarith
  show "0 \<le> 8 * ((emBits + 7) div 8) - emBits" "8 * ((emBits + 7) div 8) - emBits < 8"
    by linarith+
qed

lemma go_uint_small: "0 \<le> k \<Longrightarrow> k < 8 \<Longrightarrow> go_uint k = nat k"
  by (simp add: go_uint_def)

lemma buf0: "replicate (ps + 1 + s + hl + 1) (0::byte) = replicate ps 0 @ [0] @ replicate s 0 @ replicate hl 0 @ [0]"
proof -
  have "replicate (ps + 1 + s + hl + 1) (0::byte)
          = replicate ps 0 @ replicate 1 0 @ replicate s 0 @ replicate hl 0 @ replicate 1 0"
    by (simp only: replicate_add append_assoc)
  then show ?thesis by simp
qed

lemma buf1:
  assumes "length H = hl" "em0 = replicate ps 0 @ [0] @ replicate s 0 @ replicate hl 0 @ [0::byte]"
  shows "take (ps + 1 + s) em0 @ H @ drop (ps + 1 + s + length H) em0
           = replicate ps 0 @ [0] @ replicate s 0 @ H @ [0]"
  using assms by simp

lemma buf2:
  "(replicate ps 0 @ [0] @ replicate s 0 @ H @ [0 :: byte])[ps := 1]
               = replicate ps 0 @ [1] @ replicate s 0 @ H @ [0]"
  by (simp add: list_update_append)

lemma buf3:
  assumes "length salt = s" "em2 = replicate ps 0 @ [1] @ replicate s 0 @ H @ [0 :: byte]"
  shows "take (ps + 1) em2 @ go_copy (take (ps + 1 + s - (ps + 1)) (drop (ps + 1) em2)) salt
               @ drop (ps + 1 + s) em2
             = (replicate ps 0 @ [1] @ salt) @ H @ [0]"
  using assms by (simp add: go_copy_def)

lemma buf4:
  assumes "length salt = s" "em3 = (replicate ps 0 @ [1] @ salt) @ H @ [0 :: byte]"
  shows "take (ps + 1 + s) em3 = replicate ps 0 @ [1] @ salt" "drop (ps + 1 + s) em3 = H @ [0]"
  using assms by simp_all

lemma buf5:
  assumes "X \<noteq> []"
  shows "(X @ H @ [0])[0 := (X @ H @ [0]) ! 0 AND drop_bit k 0xFF] = clear_top k X @ H @ [0]"
  using assms by (cases X) (simp_all add: clear_top_def)

lemma buf6:
  assumes "length X = dbLen" "length H = hl"
  shows "(clear_top k X @ H @ [0 :: byte])[dbLen + hl := 0xBC] = clear_top k X @ H @ [0xBC]"
  using assms by (simp add: list_update_append clear_top_def)

lemma wrap64_id: "- (2 ^ 63) \<le> x \<Longrightarrow> x < 2 ^ 63 \<Longrightarrow> wrap64 x = x"
  by (simp add: wrap64_def)

lemma emsaPSSEncode_Ok:
  assumes ok: "hash_ok hash"
    and len: "int (length mHash) = hash_Size hash"
    and rng: "- (2 ^ 63) \<le> emBits" "emBits + 7 < 2 ^ 63"
    and sz: "hash_Size hash + int (length salt) + 2 < 2 ^ 63"
    and fit: "hash_Size hash + int (length salt) + 2 \<le> (emBits + 7) div 8"
  shows "emsaPSSEncode mHash emBits salt hash = Some (Ok (pss_EM hash mHash emBits salt))"
proof -
  define hl where "hl = hsize hash"
  define s where "s = length salt"
  define emLen where "emLen = (emBits + 7) div 8"
  define n where "n = nat emLen"
  have w0: "add64 emBits 7 = emBits + 7" using rng by (simp add: add64_def wrap64_id)
  have "2 \<le> (emBits + 7) div 8" using fit by (simp add: hash_Size_def)
  then have "0 \<le> emBits + 7" by linarith
  then have qd: "quoT (emBits + 7) 8 = (emBits + 7) div 8" by (simp add: quoT_nonneg)
  have two: "2 \<le> quoT (emBits + 7) 8" using fit unfolding qd by (simp add: hash_Size_def)
  note ef = emLen_facts[OF two]
  have q: "quoT (emBits + 7) 8 = int n" using ef two by (simp add: emLen_def n_def)
  have hs: "hash_Size hash = int hl" by (simp add: hash_Size_def hl_def)
  have nfit: "hl + s + 2 \<le> n"
    using fit unfolding qd[symmetric] q hs by (simp add: s_def)
  have nb: "int n < 2 ^ 60" using rng(2) unfolding q[symmetric] qd by simp
  define ps where "ps = n - s - hl - 2"
  have nsplit: "n = ps + 1 + s + hl + 1" using nfit by (simp add: ps_def)
  define H where "H = pss_H hash mHash salt"
  have lH: "length H = hl" using ok by (simp add: H_def pss_H_def hash_ok_def hl_def)
  define DB where "DB = replicate ps 0 @ [1] @ salt"
  have DB: "pss_DB n hl salt = DB" by (simp add: DB_def pss_DB_def ps_def s_def)
  have lDB: "length DB = ps + 1 + s" by (simp add: DB_def s_def)
  define hash2 where "hash2 = hash_Reset hash"
  have ok2: "hash_ok hash2" using ok by (simp add: hash_ok_def hash2_def hash_Reset_def)
  define k where "k = 8 * int n - emBits"
  have intn: "int n = (emBits + 7) div 8" using q ef(2) by simp
  have kr: "0 \<le> k" "k < 8" using ef(3,4) unfolding k_def intn by simp_all
  have k8: "nat (8 * int n) = 8 * n" by (simp add: nat_mult_distrib)
  have k: "go_uint k = nat k" "nat k = 8 * n - nat emBits"
    using kr ef(1) k8 by (simp_all add: go_uint_small k_def nat_diff_distrib)
  define mask where "mask = mgf1_mask hash2 H (0, 0, 0, 0) (length DB)"
  have w: "sub64 (sub64 (sub64 (int n) (int s)) (int hl)) 2 = int ps"
    "sub64 (sub64 (sub64 (int n) (int s)) (int hl)) 1 = int (ps + 1)"
    "add64 (add64 (int ps) 1) (int s) = int (ps + 1 + s)"
    "sub64 (int n) 1 = int (ps + 1 + s + hl)"
    "add64 (add64 (int hl) (int s)) 2 = int hl + int s + 2"
    using nfit nb by (simp_all add: ps_def add64_def sub64_def wrap64_id)
  have wk: "go_uint (sub64 (mul64 8 (int n)) emBits) = go_uint (8 * int n - emBits)"
    by (simp add: go_uint_def sub64_def mul64_def wrap64_def mod_simps)
  have v1: "nat (int (ps + 1 + s)) = ps + 1 + s"
    "nat (int ps) = ps" "nat (int (ps + 1)) = ps + 1"
    "nat (int (ps + 1 + s + hl)) = ps + 1 + s + hl" "nat (int n) = n"
    by simp_all
  have hsum: "hash_Sum (hash_Write (hash_Write (hash_Write hash (replicate 8 0)) mHash) salt) [] = H"
    by (simp add: hash_Sum_def hash_Write_def H_def pss_H_def)
  have hres: "hash_Reset (hash_Write (hash_Write (hash_Write hash (replicate 8 0)) mHash) salt) = hash2"
    by (simp add: hash_Reset_def hash_Write_def hash2_def)
  have mg: "mgf1XOR DB hash2 H = Some (xor_bytes DB mask, hash2)"
    using mgf1XOR_deterministic[OF ok2, of DB H]
    by (simp add: mask_def DB_def hash2_def hash_Reset_def)
  define X where "X = xor_bytes DB mask"
  have lmask: "length mask = length DB" using mgf1XOR_deterministic[OF ok2, of DB H] by (simp add: mask_def)
  have lX: "length X = ps + 1 + s" by (simp add: X_def length_xor_bytes lDB lmask)
  have Xne: "X \<noteq> []" using lX by auto
  have lenle: "length H \<le> n - (ps + 1 + s)" unfolding lH nsplit by simp
  have c: "\<not> int n < int hl + int s + 2" using nfit by simp
  have em3: "take (ps + 1)
              ((take (ps + 1 + s) (replicate n 0) @ H @ drop (ps + 1 + s + length H) (replicate n 0))[ps := 1]) @
             go_copy (take (ps + 1 + s - (ps + 1))
                 (drop (ps + 1)
                   ((take (ps + 1 + s) (replicate n 0) @ H @ drop (ps + 1 + s + length H) (replicate n 0))[ps := 1])))
               salt @
             drop (ps + 1 + s)
               ((take (ps + 1 + s) (replicate n 0) @ H @ drop (ps + 1 + s + length H) (replicate n 0))[ps := 1])
            = DB @ H @ [0]"
    unfolding nsplit buf0 buf1[OF lH refl] buf2 buf3[OF s_def[symmetric] refl] DB_def by simp
  have d3: "take (ps + 1 + s) (DB @ H @ [0]) = DB" "drop (ps + 1 + s) (DB @ H @ [0]) = H @ [0]"
    using lDB by simp_all
  have "emsaPSSEncode mHash emBits salt hash = Some (Ok (clear_top (nat k) X @ H @ [0xBC]))"
    unfolding emsaPSSEncode_def Let_def w0 q hs s_def[symmetric] w wk v1 hsum hres
    using len[unfolded hs] c lenle
    apply (simp only: if_False if_True not_False_eq_True refl em3 d3 mg option.case prod.case
        X_def[symmetric] buf5[OF Xne] buf6[OF lX lH] k_def[symmetric] k(1))
    apply simp
    done
  moreover have "pss_EM hash mHash emBits salt = clear_top (nat k) X @ H @ [0xBC]"
    using k(2)
    by (simp add: pss_EM_def Let_def n_def[symmetric] emLen_def[symmetric] hl_def[symmetric] DB
        H_def[symmetric] hash2_def[symmetric] mask_def[symmetric] X_def[symmetric])
  ultimately show ?thesis by simp
qed

lemma quoT_8_lt_iff:
  assumes "0 \<le> b"
  shows "quoT (emBits + 7) 8 < b + 2 \<longleftrightarrow> (emBits + 7) div 8 < b + 2"
proof (cases "0 \<le> emBits + 7")
  case True
  then show ?thesis by (simp add: quoT_nonneg)
next
  case False
  then have "quoT (emBits + 7) 8 \<le> 0" by (intro quoT_8_small) simp
  moreover have "(emBits + 7) div 8 \<le> 0" using False by simp
  ultimately show ?thesis using assms by simp
qed

text \<open>
  Claim C7. \<^verbatim>\<open>emsaPSSEncode(digest, emBits, salt, hash)\<close> fails with an encoding error
  exactly when \<open>len(digest) \<noteq> hLen\<close> or \<open>emLen < hLen + sLen + 2\<close>, where \<open>emLen\<close> is
  \<open>emBits / 8\<close> rounded up; in particular, for a digest of length \<open>hLen\<close>, the tightest
  fit \<open>emLen = hLen + sLen + 2\<close> succeeds and \<open>emLen = hLen + sLen + 1\<close> fails. The hash is
  well formed (otherwise the call may not return), \<open>emBits\<close> is a value of Go's \<^verbatim>\<open>int\<close> for
  which \<open>emBits + 7\<close> does not overflow, and neither does \<open>hLen + sLen + 2\<close>.
\<close>

theorem emsaPSSEncode_errors:
  assumes "hash_ok hash"
    and "- (2 ^ 63) \<le> emBits" "emBits + 7 < 2 ^ 63"
    and "hash_Size hash + int (length salt) + 2 < 2 ^ 63"
  shows "let hLen = hash_Size hash; sLen = int (length salt); emLen = (emBits + 7) div 8;
             r = emsaPSSEncode mHash emBits salt hash
         in ((\<exists>e. r = Some (Err e)) \<longleftrightarrow> (int (length mHash) \<noteq> hLen \<or> emLen < hLen + sLen + 2))
          \<and> (int (length mHash) \<noteq> hLen \<longrightarrow> r = Some (Err ErrNotHashed))
          \<and> (int (length mHash) = hLen \<and> emLen < hLen + sLen + 2 \<longrightarrow> r = Some (Err ErrEncoding))
          \<and> (int (length mHash) = hLen \<and> hLen + sLen + 2 \<le> emLen \<longrightarrow> (\<exists>em. r = Some (Ok em)))
          \<and> (int (length mHash) = hLen \<and> emLen = hLen + sLen + 2 \<longrightarrow> (\<exists>em. r = Some (Ok em)))
          \<and> (int (length mHash) = hLen \<and> emLen = hLen + sLen + 1 \<longrightarrow> r = Some (Err ErrEncoding))"
proof -
  define hLen where "hLen = hash_Size hash"
  define sLen where "sLen = int (length salt)"
  define emLen where "emLen = (emBits + 7) div 8"
  define r where "r = emsaPSSEncode mHash emBits salt hash"
  have nn: "0 \<le> hLen + sLen" by (simp add: hLen_def sLen_def hash_Size_def)
  have w0: "add64 emBits 7 = emBits + 7" using assms(2,3) by (simp add: add64_def wrap64_id)
  have w1: "add64 (add64 hLen sLen) 2 = hLen + sLen + 2"
    using assms(4) nn by (simp add: add64_def wrap64_id hLen_def sLen_def)
  have lt: "quoT (emBits + 7) 8 < hLen + sLen + 2 \<longleftrightarrow> emLen < hLen + sLen + 2"
    unfolding emLen_def by (rule quoT_8_lt_iff[OF nn])
  have a: "r = Some (Err ErrNotHashed)" if "int (length mHash) \<noteq> hLen"
    using that by (simp add: r_def emsaPSSEncode_def hLen_def)
  have b: "r = Some (Err ErrEncoding)" if "int (length mHash) = hLen" "emLen < hLen + sLen + 2"
    using that lt w0 w1 by (simp add: r_def emsaPSSEncode_def hLen_def sLen_def Let_def)
  have c: "\<exists>em. r = Some (Ok em)" if "int (length mHash) = hLen" "hLen + sLen + 2 \<le> emLen"
  proof -
    have "hash_Size hash + int (length salt) + 2 \<le> (emBits + 7) div 8"
      using that(2) by (simp add: hLen_def sLen_def emLen_def)
    then show ?thesis
      using emsaPSSEncode_Ok[OF assms(1) _ assms(2,3,4), of mHash] that(1) by (simp add: r_def hLen_def)
  qed
  have "(\<exists>e. r = Some (Err e)) \<longleftrightarrow> (int (length mHash) \<noteq> hLen \<or> emLen < hLen + sLen + 2)"
  proof
    assume "\<exists>e. r = Some (Err e)"
    then show "int (length mHash) \<noteq> hLen \<or> emLen < hLen + sLen + 2"
      using c by fastforce
  next
    assume "int (length mHash) \<noteq> hLen \<or> emLen < hLen + sLen + 2"
    then show "\<exists>e. r = Some (Err e)" using a b by blast
  qed
  moreover have "int (length mHash) = hLen \<and> emLen = hLen + sLen + 2 \<longrightarrow> (\<exists>em. r = Some (Ok em))"
    using c by simp
  moreover have "int (length mHash) = hLen \<and> emLen = hLen + sLen + 1 \<longrightarrow> r = Some (Err ErrEncoding)"
    using b by simp
  ultimately show ?thesis
    using a b c
    unfolding Let_def hLen_def[symmetric] sLen_def[symmetric] emLen_def[symmetric] r_def[symmetric]
    by blast
qed

text \<open>
  With the one-byte hash and \<open>emBits = 17\<close>, so \<open>emLen = 3\<close>: an empty salt is the
  tightest fit, a one-byte salt is one byte too long, a two-byte digest is no digest.
\<close>

theorem emsaPSSEncode_errors_witness:
  "hash_ok (hash_New toyHash)
   \<and> emsaPSSEncode [0x41] 17 [] (hash_New toyHash) = Some (Ok [0, 236, 188])
   \<and> emsaPSSEncode [0x41] 17 [5] (hash_New toyHash) = Some (Err ErrEncoding)
   \<and> emsaPSSEncode [0x41, 0x42] 17 [] (hash_New toyHash) = Some (Err ErrNotHashed)"
proof -
  have 1: "emsaPSSEncode [0x41] 17 [] (hash_New toyHash) = Some (Ok [0, 236, 188])"
    by code_simp
  have s: "hash_Size (hash_New toyHash) = 1"
    by (simp add: hash_Size_def hash_New_def toyHash_def)
  have 2: "emsaPSSEncode [0x41] 17 [5] (hash_New toyHash) = Some (Err ErrEncoding)"
    using emsaPSSEncode_errors[OF toyHash_ok(2), of 17 "[5]" "[0x41]"]
    by (simp add: Let_def s)
  have 3: "emsaPSSEncode [0x41, 0x42] 17 [] (hash_New toyHash) = Some (Err ErrNotHashed)"
    using emsaPSSEncode_errors[OF toyHash_ok(2), of 17 "[]" "[0x41, 0x42]"]
    by (simp add: Let_def s)
  show ?thesis using 1 2 3 toyHash_ok(2) by simp
qed

section \<open>EMSA-PSS verification\<close>









section \<open>The range check of decrypt\<close>





end
